theory Spec2Isabelle
  imports Complex_Main "HOL-Library.Log_Nat"
begin

unbundle bit_operations_syntax

text \<open>
  A shallow embedding of \<open>src/App.tsx\<close>, the single component of the SAM2 ONNX image
  segmenter: the prompt tensors and the mask resampling of \<open>run\<close>, the overlay of
  \<open>draw\<close>, \<open>exportPNG\<close>, and the seed scan and boundary walk of \<open>exportPolygon\<close>.
  Canvas pixels are bytes, coordinates are integers, and the double and single
  precision arithmetic of the source is modelled by rounding exact rationals.
\<close>

section \<open>Pixel buffers\<close>

text \<open>
  An \<open>ImageData\<close> of the canvas API: its width, its height and the flat RGBA byte
  buffer \<open>data\<close> (four bytes per pixel, row-major). The platform builds it with
  \<open>length data = 4 * width * height\<close>; that invariant is the predicate \<open>wf_image\<close>
  and is assumed only where a theorem says so.
\<close>

record imagedata =
  width :: nat
  height :: nat
  data :: "nat list"

definition wf_image :: "imagedata \<Rightarrow> bool" where
  "wf_image im = (length (data im) = 4 * width im * height im)"

text \<open>
  Reading a typed array at an index: JavaScript gives \<open>undefined\<close> (here \<open>None\<close>)
  for a negative index and for an index at or past the length.
\<close>

definition at_index :: "'a list \<Rightarrow> int \<Rightarrow> 'a option" where
  "at_index xs i = (if 0 \<le> i \<and> i < int (length xs) then Some (xs ! nat i) else None)"

text \<open>
  Writing a typed array at an index: a write outside the array is ignored.
\<close>

definition set_index :: "'a list \<Rightarrow> int \<Rightarrow> 'a \<Rightarrow> 'a list" where
  "set_index xs i v = (if 0 \<le> i \<and> i < int (length xs) then xs[nat i := v] else xs)"

section \<open>exportPolygon: seed scan and boundary walk\<close>

text \<open>
  \<open>const isOn = (x, y) => id.data[(y * W + x) * 4 + 3] > 0\<close>. The comparison
  \<open>undefined > 0\<close> is false.
\<close>

definition isOn :: "imagedata \<Rightarrow> int \<Rightarrow> int \<Rightarrow> bool" where
  "isOn im x y =
     (case at_index (data im) ((y * int (width im) + x) * 4 + 3) of
        None \<Rightarrow> False
      | Some a \<Rightarrow> a > 0)"

text \<open>
  The seed scan. \<open>sx\<close> and \<open>sy\<close> start at \<open>-1\<close>; the inner loop stops at the first
  occupied pixel of the row (\<open>break\<close>), the outer loop runs while \<open>sy === -1\<close>.
\<close>

fun scan_row :: "imagedata \<Rightarrow> int \<Rightarrow> nat list \<Rightarrow> int \<times> int \<Rightarrow> int \<times> int" where
  "scan_row im y [] s = s"
| "scan_row im y (x # xs) s =
     (if isOn im (int x) y then (int x, y) else scan_row im y xs s)"

fun scan_rows :: "imagedata \<Rightarrow> nat list \<Rightarrow> int \<times> int \<Rightarrow> int \<times> int" where
  "scan_rows im [] s = s"
| "scan_rows im (y # ys) s =
     (if snd s = - 1
      then scan_rows im ys (scan_row im (int y) [0..<width im] s)
      else s)"

definition find_seed :: "imagedata \<Rightarrow> int \<times> int" where
  "find_seed im = scan_rows im [0..<height im] (- 1, - 1)"

text \<open>
  The state of the walk: position \<open>x, y\<close>, direction \<open>dir\<close> (\<open>0=R, 1=D, 2=L, 3=U\<close>),
  the polygon accumulated so far and the \<open>visited\<close> byte array.
\<close>

record walker =
  px :: int
  py :: int
  dir :: int
  poly :: "(int \<times> int) list"
  visited :: "nat list"

text \<open>
  \<open>move(d)\<close>: \<open>if (d === 0) x++; else if (d === 1) y++; else if (d === 2) x--; else y--\<close>.
\<close>

definition move :: "int \<Rightarrow> int \<times> int \<Rightarrow> int \<times> int" where
  "move d p =
     (if d = 0 then (fst p + 1, snd p)
      else if d = 1 then (fst p, snd p + 1)
      else if d = 2 then (fst p - 1, snd p)
      else (fst p, snd p - 1))"

text \<open>
  The occupancy probe in direction \<open>d\<close> from \<open>(x, y)\<close>; the source writes this chain of
  conditionals twice, once for \<open>ahead()\<close> (with \<open>dir\<close>) and once for \<open>rightIsOn\<close>
  (with \<open>right\<close>).
\<close>

definition probe :: "imagedata \<Rightarrow> int \<Rightarrow> int \<Rightarrow> int \<Rightarrow> bool" where
  "probe im d x y =
     (if d = 0 then isOn im (x + 1) y
      else if d = 1 then isOn im x (y + 1)
      else if d = 2 then isOn im (x - 1) y
      else isOn im x (y - 1))"

text \<open>
  One iteration of the loop body, up to (not including) the termination test:
  push the position, mark it visited, then probe \<open>right = (dir + 3) & 3\<close>, then
  ahead, else turn to \<open>left = (dir + 1) & 3\<close>.
\<close>

definition body :: "imagedata \<Rightarrow> walker \<Rightarrow> walker" where
  "body im s =
     (let x = px s; y = py s;
          pl = poly s @ [(x, y)];
          vis = set_index (visited s) (y * int (width im) + x) 1;
          right = (dir s + 3) AND 3;
          left = (dir s + 1) AND 3
      in if probe im right x y
         then \<lparr>px = fst (move right (x, y)), py = snd (move right (x, y)),
               dir = right, poly = pl, visited = vis\<rparr>
         else if probe im (dir s) x y
         then \<lparr>px = fst (move (dir s) (x, y)), py = snd (move (dir s) (x, y)),
               dir = dir s, poly = pl, visited = vis\<rparr>
         else \<lparr>px = x, py = y, dir = left, poly = pl, visited = vis\<rparr>)"

text \<open>
  The test that ends the loop early:
  \<open>if (x === sx && y === sy && poly.length > 10) break\<close>.
\<close>

definition closed_at :: "int \<times> int \<Rightarrow> walker \<Rightarrow> bool" where
  "closed_at seed s = (px s = fst seed \<and> py s = snd seed \<and> length (poly s) > 10)"

text \<open>
  \<open>for (let steps = 0; steps < W * H * 4; steps++) { body; if (...) break; }\<close>:
  the second argument counts the iterations that remain.
\<close>

fun walk :: "imagedata \<Rightarrow> int \<times> int \<Rightarrow> nat \<Rightarrow> walker \<Rightarrow> walker" where
  "walk im seed 0 s = s"
| "walk im seed (Suc n) s =
     (let s' = body im s in if closed_at seed s' then s' else walk im seed n s')"

definition start :: "imagedata \<Rightarrow> int \<times> int \<Rightarrow> walker" where
  "start im seed =
     \<lparr>px = fst seed, py = snd seed, dir = 0, poly = [],
      visited = replicate (width im * height im) 0\<rparr>"

text \<open>
  What a click on an export button does: nothing (\<open>return\<close> at a missing canvas),
  an uncaught exception, an alert, or a file download. The downloaded GeoJSON wraps
  the coordinate ring unchanged (\<open>poly.map(([px, py]) => [px, py])\<close>), so the ring
  stands for the file content.
\<close>

datatype 'a effect = NoEffect | Throws string | Alert string | Download string 'a

text \<open>
  \<open>exportPolygon\<close>. The argument is the overlay canvas read through
  \<open>getImageData(0, 0, W, H)\<close>, \<open>None\<close> when \<open>overlayRef.current\<close> is null;
  \<open>getImageData\<close> throws an \<open>IndexSizeError\<close> when a side is zero.
\<close>

definition exportPolygon :: "imagedata option \<Rightarrow> (int \<times> int) list effect" where
  "exportPolygon overlay =
     (case overlay of
        None \<Rightarrow> NoEffect
      | Some im \<Rightarrow>
          if width im = 0 \<or> height im = 0 then Throws ''IndexSizeError''
          else let seed = find_seed im
               in if fst seed = - 1 then Alert ''No mask to export''
                  else Download ''mask.geojson''
                         (poly (walk im seed (width im * height im * 4) (start im seed))))"


section \<open>Vocabulary of the statements about the walk\<close>

text \<open>
  Unit vectors of the four directions in image coordinates (x to the right, y down):
  \<open>0\<close> is RIGHT, \<open>1\<close> is DOWN, \<open>2\<close> is LEFT, \<open>3\<close> is UP.
\<close>

definition delta :: "int \<Rightarrow> int \<times> int" where
  "delta d = (if d = 0 then (1, 0) else if d = 1 then (0, 1) else if d = 2 then (- 1, 0) else (0, - 1))"

definition towards :: "imagedata \<Rightarrow> int \<Rightarrow> int \<Rightarrow> int \<Rightarrow> bool" where
  "towards im d x y = isOn im (x + fst (delta d)) (y + snd (delta d))"

text \<open>
  A wall-following step on a triple \<open>(x, y, dir)\<close>, written after the specification's
  wording and parameterised by the two turns: the preferred side is \<open>dir + a\<close> modulo 4,
  the fallback turn is \<open>dir + b\<close> modulo 4. If the cell on the preferred side is
  occupied, turn there and step; else if the cell ahead is occupied, step; else take
  the fallback turn without stepping. The specification's rule is \<open>wall_step 1 3\<close>.
\<close>

definition wall_step :: "int \<Rightarrow> int \<Rightarrow> imagedata \<Rightarrow> int \<times> int \<times> int \<Rightarrow> int \<times> int \<times> int" where
  "wall_step a b im t =
     (case t of (x, y, d) \<Rightarrow>
        let side = (d + a) mod 4; back = (d + b) mod 4
        in if towards im side x y then (x + fst (delta side), y + snd (delta side), side)
           else if towards im d x y then (x + fst (delta d), y + snd (delta d), d)
           else (x, y, back))"

definition pose :: "walker \<Rightarrow> int \<times> int \<times> int" where
  "pose s = (px s, py s, dir s)"


text \<open>
  Concrete overlays: an occupied pixel carries the overlay colour with alpha 110, a
  free pixel is transparent black.
\<close>

definition overlay_of :: "nat \<Rightarrow> nat \<Rightarrow> bool list \<Rightarrow> imagedata" where
  "overlay_of w h bs =
     \<lparr>width = w, height = h,
      data = concat (map (\<lambda>b. if b then [0, 255, 0, 110] else [0, 0, 0, 0]) bs)\<rparr>"

definition block4 :: imagedata where
  "block4 = overlay_of 4 4
     [False, False, False, False,
      False, True,  True,  False,
      False, True,  True,  False,
      False, False, False, False]"

definition full2 :: imagedata where
  "full2 = overlay_of 2 2 [True, True, True, True]"


definition blank2 :: imagedata where
  "blank2 = overlay_of 2 2 [False, False, False, False]"

section \<open>JavaScript numbers\<close>

text \<open>
  A JavaScript number is an IEEE 754 double and a \<open>Float32Array\<close> element an IEEE
  single. Finite values are modelled as rationals; each arithmetic operation gives
  the exact result rounded to the nearest value of the format, ties to the even
  significand. \<open>binade q\<close> is the exponent \<open>e\<close> with \<open>2^e \<le> q < 2^(e+1)\<close>, and
  \<open>fround p\<close> rounds to \<open>p\<close> significant bits (53 for a double, 24 for a single).
  The exponent range is not modelled: the values met here (pixel coordinates, image
  and tensor dimensions, their quotients and products) are far from overflow and
  from the subnormal range.
\<close>

definition binade :: "rat \<Rightarrow> int" where
  "binade q =
     (let n = fst (quotient_of q); d = snd (quotient_of q);
          e = bitlen n - bitlen d
      in if 2 powi e \<le> q then e else e - 1)"

definition round_half_even :: "rat \<Rightarrow> int" where
  "round_half_even m =
     (let f = \<lfloor>m\<rfloor>; r = m - of_int f
      in if r < 1 / 2 then f else if 1 / 2 < r then f + 1 else if even f then f else f + 1)"

definition fround :: "nat \<Rightarrow> rat \<Rightarrow> rat" where
  "fround p q =
     (if q = 0 then 0
      else let a = \<bar>q\<bar>; u = 2 powi (binade a - int p + 1)
           in sgn q * (of_int (round_half_even (a / u)) * u))"

text \<open>The double operations \<open>a / b\<close> (for \<open>b\<close> not zero) and \<open>a * b\<close>.\<close>

definition fdiv :: "rat \<Rightarrow> rat \<Rightarrow> rat" where
  "fdiv a b = fround 53 (a / b)"

definition fmul :: "rat \<Rightarrow> rat \<Rightarrow> rat" where
  "fmul a b = fround 53 (a * b)"

text \<open>
  A value read from the output tensor: a finite number, an infinity or NaN.
\<close>

datatype jsnum = Num rat | PosInf | NegInf | NaN

section \<open>run: from the output tensor to the mask\<close>

text \<open>
  \<open>Math.floor((x / imgW) * MW)\<close>, and likewise for \<open>y\<close>, \<open>imgH\<close> and \<open>MH\<close>. It is
  evaluated only for \<open>x < imgW\<close>, so the divisor is not zero.
\<close>

definition src_coord :: "nat \<Rightarrow> nat \<Rightarrow> nat \<Rightarrow> int" where
  "src_coord x W M = \<lfloor>fmul (fdiv (of_nat x) (of_nat W)) (of_nat M)\<rfloor>"

text \<open>
  The decision threshold is the literal \<open>0.0\<close> of \<open>v > 0.0\<close>. A read outside the data
  gives \<open>undefined\<close>, which compares like NaN: every comparison with it is false.
\<close>

definition threshold :: rat where
  "threshold = 0"

definition above :: "jsnum option \<Rightarrow> bool" where
  "above v =
     (case v of
        None \<Rightarrow> False
      | Some (Num r) \<Rightarrow> threshold < r
      | Some PosInf \<Rightarrow> True
      | Some NegInf \<Rightarrow> False
      | Some NaN \<Rightarrow> False)"

text \<open>
  \<open>Math.max(0, Math.min(255, Math.round((v > 0.0 ? 1 : 0) * 110)))\<close>; \<open>Math.round\<close> leaves
  the integers 0 and 110 as they are.
\<close>

definition alpha_of :: "jsnum option \<Rightarrow> nat" where
  "alpha_of v = nat (max 0 (min 255 ((if above v then 1 else 0) * 110)))"

text \<open>
  The four stores of one pixel at byte offset \<open>idx\<close>; a store past the end of the
  array is ignored, as \<open>list_update\<close> ignores it.
\<close>

definition put_pixel :: "nat list \<Rightarrow> nat \<Rightarrow> nat \<Rightarrow> nat list" where
  "put_pixel d idx a = d[idx := 0, idx + 1 := 0, idx + 2 := 0, idx + 3 := a]"

text \<open>
  The output tensor \<open>out[IO_NAMES.masks]\<close>: its \<open>dims\<close> and its flat \<open>data\<close>.
\<close>

record tensor =
  dims :: "nat list"
  tdata :: "jsnum list"

text \<open>
  The two nested loops over the destination pixels. \<open>MH\<close> and \<open>MW\<close> are the mask
  dimensions taken from the tensor's shape, \<open>W\<close> and \<open>H\<close> the image dimensions.
\<close>

definition resample_row :: "tensor \<Rightarrow> nat \<Rightarrow> nat \<Rightarrow> nat \<Rightarrow> nat \<Rightarrow> nat \<Rightarrow> nat list \<Rightarrow> nat list" where
  "resample_row m MH MW W H y d0 =
     fold (\<lambda>x d.
             let srcX = src_coord x W MW;
                 srcY = src_coord y H MH;
                 v = at_index (tdata m) (srcY * int MW + srcX);
                 alpha = alpha_of v;
                 idx = (y * W + x) * 4
             in put_pixel d idx alpha)
          [0..<W] d0"

definition resample :: "tensor \<Rightarrow> nat \<Rightarrow> nat \<Rightarrow> nat \<Rightarrow> nat \<Rightarrow> nat list" where
  "resample m MH MW W H =
     fold (\<lambda>y d. resample_row m MH MW W H y d) [0..<H] (replicate (4 * W * H) 0)"

text \<open>
  The shape of the mask: the last two of four or three dimensions, or both of two;
  any other rank is the error "Unexpected mask shape".
\<close>

definition mask_shape :: "nat list \<Rightarrow> (nat \<times> nat) option" where
  "mask_shape sh =
     (if length sh = 4 then Some (sh ! 2, sh ! 3)
      else if length sh = 3 then Some (sh ! 1, sh ! 2)
      else if length sh = 2 then Some (sh ! 0, sh ! 1)
      else None)"

datatype run_error = MaskNotFound | UnexpectedShape "nat list" | IndexSizeError

text \<open>
  The part of \<open>run\<close> after the inference call, for an image canvas of \<open>W\<close> by \<open>H\<close>
  pixels. An exception is caught by the \<open>catch\<close> of \<open>run\<close>, which only sets the error
  message: the mask state is not set (\<open>Inl\<close>). \<open>new ImageData(imgW, imgH)\<close> throws an
  \<open>IndexSizeError\<close> when a side is zero. On success the result is the \<open>ImageData\<close>
  passed to \<open>setMask\<close>.
\<close>

definition run_mask :: "tensor option \<Rightarrow> nat \<Rightarrow> nat \<Rightarrow> run_error + imagedata" where
  "run_mask out W H =
     (case out of
        None \<Rightarrow> Inl MaskNotFound
      | Some m \<Rightarrow>
          (case mask_shape (dims m) of
             None \<Rightarrow> Inl (UnexpectedShape (dims m))
           | Some (MH, MW) \<Rightarrow>
               if W = 0 \<or> H = 0 then Inl IndexSizeError
               else Inr \<lparr>width = W, height = H, data = resample m MH MW W H\<rparr>))"

text \<open>
  The resampler of the specification, section 4.1 (failure clause), in its words: it
  fails with \<open>InvalidDimensions\<close> if any dimension is non-positive and with
  \<open>MissingData\<close> if the element count of the raw grid is not \<open>srcW * srcH\<close>.
\<close>

datatype spec_error = InvalidDimensions | MissingData

definition spec_resample_failure :: "'a list \<Rightarrow> nat \<Rightarrow> nat \<Rightarrow> nat \<Rightarrow> nat \<Rightarrow> spec_error option" where
  "spec_resample_failure raw srcW srcH targetWidth targetHeight =
     (if srcW = 0 \<or> srcH = 0 \<or> targetWidth = 0 \<or> targetHeight = 0 then Some InvalidDimensions
      else if length raw \<noteq> srcW * srcH then Some MissingData
      else None)"

text \<open>
  Concrete output tensors: the 2 x 2 grid of the specification's scenario, an output
  with two masks of one pixel each, and an output of shape 0 x 0.
\<close>

definition raw22 :: tensor where
  "raw22 = \<lparr>dims = [2, 2], tdata = [Num (4 / 5), Num (- 1 / 5), Num (1 / 10), Num (9 / 10)]\<rparr>"

definition two_masks :: tensor where
  "two_masks = \<lparr>dims = [1, 2, 1, 1], tdata = [Num 1, Num (- 1)]\<rparr>"

definition no_data :: tensor where
  "no_data = \<lparr>dims = [0, 0], tdata = []\<rparr>"

section \<open>run: the prompt tensors\<close>

text \<open>
  \<open>type PromptPoint = { x: number; y: number; label: 0 | 1 }\<close>, with \<open>1\<close> for
  foreground and \<open>0\<close> for background. The coordinates come from \<open>Math.round\<close> and are
  integers.
\<close>

datatype plabel = BG | FG

datatype prompt_point = PromptPoint (pt_x: int) (pt_y: int) (pt_label: plabel)

definition label_num :: "plabel \<Rightarrow> int" where
  "label_num l = (case l of BG \<Rightarrow> 0 | FG \<Rightarrow> 1)"

text \<open>
  \<open>points[i] ?? { x: 0, y: 0, label: 0 }\<close>: the placeholder stands in where the list
  has no element \<open>i\<close>.
\<close>

definition point_or_default :: "prompt_point list \<Rightarrow> nat \<Rightarrow> prompt_point" where
  "point_or_default points i = (if i < length points then points ! i else PromptPoint 0 0 BG)"

text \<open>
  A store into a \<open>Float32Array\<close> rounds the number to single precision; a store
  past the end is ignored.
\<close>

definition store32 :: "rat list \<Rightarrow> nat \<Rightarrow> rat \<Rightarrow> rat list" where
  "store32 a i v = a[i := fround 24 v]"

text \<open>
  The prompt part of the feeds: \<open>P\<close>, the data of \<open>point_coords\<close> (shape \<open>[1, P, 2]\<close>)
  and the data of \<open>point_labels\<close> (shape \<open>[1, P]\<close>).
\<close>

record prompt_feeds =
  n_points :: nat
  point_coords :: "rat list"
  point_labels :: "rat list"

text \<open>
  The body of the loop over \<open>i\<close>: \<open>coords[i * 2 + 0] = p.x\<close>,
  \<open>coords[i * 2 + 1] = p.y\<close>, \<open>labels[i] = p.label\<close>.
\<close>

definition prompt_step :: "prompt_point list \<Rightarrow> nat \<Rightarrow> prompt_feeds \<Rightarrow> prompt_feeds" where
  "prompt_step points i f =
     (let p = point_or_default points i
      in f\<lparr>point_coords :=
             store32 (store32 (point_coords f) (i * 2 + 0) (of_int (pt_x p)))
                     (i * 2 + 1) (of_int (pt_y p)),
           point_labels := store32 (point_labels f) i (of_int (label_num (pt_label p)))\<rparr>)"

text \<open>
  \<open>P = Math.max(points.length, 1)\<close>; both arrays start filled with zeros.
\<close>

definition build_prompts :: "prompt_point list \<Rightarrow> prompt_feeds" where
  "build_prompts points =
     (let P = max (length points) 1
      in fold (prompt_step points) [0..<P]
              \<lparr>n_points = P, point_coords = replicate (1 * P * 2) 0,
               point_labels = replicate (1 * P) 0\<rparr>)"

section \<open>draw and exportPNG\<close>

text \<open>
  The mask overlay of \<open>draw\<close>: every pixel of \<open>tmp\<close> is green with the alpha of the
  mask (\<open>tmp.data[i + 3] = mask.data[i + 3]\<close>; an \<open>undefined\<close> alpha is stored as 0).
\<close>

definition tint_pixel :: "nat list \<Rightarrow> nat list \<Rightarrow> nat \<Rightarrow> nat list" where
  "tint_pixel src tmp i =
     (case at_index src (int i + 3) of
        None \<Rightarrow> tmp[i := 0, i + 1 := 255, i + 2 := 0, i + 3 := 0]
      | Some a \<Rightarrow> tmp[i := 0, i + 1 := 255, i + 2 := 0, i + 3 := a])"

definition tint :: "imagedata \<Rightarrow> imagedata" where
  "tint mk =
     \<lparr>width = width mk, height = height mk,
      data = fold (\<lambda>k tmp. tint_pixel (data mk) tmp (k * 4))
               [0..<(length (data mk) + 3) div 4]
               (replicate (4 * width mk * height mk) 0)\<rparr>"

text \<open>
  \<open>draw\<close>, as far as the overlay canvas goes: it is cleared, the tinted mask is put on
  it when there is a mask, and then a marker is painted for every prompt point
  (\<open>arc\<close>, \<open>fill\<close>, \<open>stroke\<close>, \<open>fillText\<close>). The mask has the size of the image, as \<open>run\<close>
  builds it. The rasteriser of the canvas is not part of the repository: it is the
  parameter \<open>paint\<close>. Of the overlay only the alpha channel is read by the two
  exports, and the canvas returns the alpha it was given.
\<close>

definition draw :: "(prompt_point list \<Rightarrow> imagedata \<Rightarrow> imagedata) \<Rightarrow> nat \<Rightarrow> nat
    \<Rightarrow> imagedata option \<Rightarrow> prompt_point list \<Rightarrow> imagedata" where
  "draw paint W H current points =
     paint points
       (case current of
          None \<Rightarrow> \<lparr>width = W, height = H, data = replicate (4 * W * H) 0\<rparr>
        | Some mk \<Rightarrow> tint mk)"

text \<open>
  A stand-in for the rasteriser that paints the least the canvas can paint for a
  marker: the one pixel whose corner is the centre \<open>(p.x, p.y)\<close> of the disc of
  radius 5, with the fill colour \<open>#00d1ff\<close>, opaque. That pixel lies wholly inside the
  disc; the canvas paints it and more.
\<close>

definition dot_painter :: "prompt_point list \<Rightarrow> imagedata \<Rightarrow> imagedata" where
  "dot_painter points im =
     fold (\<lambda>p im'.
             if 0 \<le> pt_x p \<and> pt_x p < int (width im') \<and> 0 \<le> pt_y p \<and> pt_y p < int (height im')
             then let i = (nat (pt_y p) * width im' + nat (pt_x p)) * 4
                  in im'\<lparr>data := (data im')[i := 0, i + 1 := 209, i + 2 := 255, i + 3 := 255]\<rparr>
             else im')
          points im"

text \<open>
  \<open>exportPNG\<close>. The argument is the overlay canvas read through
  \<open>getImageData(0, 0, W, H)\<close> (\<open>None\<close> when a canvas reference is null), \<open>W\<close> and \<open>H\<close>
  being the size of the image canvas, which \<open>draw\<close> also gives to the overlay. Every
  pixel of \<open>bin\<close> is white, opaque where the overlay's alpha is positive.
\<close>

definition png_pixel :: "nat list \<Rightarrow> nat list \<Rightarrow> nat \<Rightarrow> nat list" where
  "png_pixel src bin i =
     (let on = (case at_index src (int i + 3) of None \<Rightarrow> False | Some a \<Rightarrow> a > 0)
      in bin[i := 255, i + 1 := 255, i + 2 := 255, i + 3 := (if on then 255 else 0)])"

definition exportPNG :: "imagedata option \<Rightarrow> imagedata effect" where
  "exportPNG overlay =
     (case overlay of
        None \<Rightarrow> NoEffect
      | Some im \<Rightarrow>
          if width im = 0 \<or> height im = 0 then Throws ''IndexSizeError''
          else Download ''mask.png''
                 \<lparr>width = width im, height = height im,
                  data = fold (\<lambda>k bin. png_pixel (data im) bin (k * 4))
                           [0..<(length (data im) + 3) div 4]
                           (replicate (4 * width im * height im) 0)\<rparr>)"

text \<open>
  A 2 x 2 mask with no occupied pixel, as \<open>run\<close> stores it.
\<close>

definition empty_mask2 :: imagedata where
  "empty_mask2 = \<lparr>width = 2, height = 2, data = replicate 16 0\<rparr>"

section \<open>The seed scan\<close>

lemma scan_row_none:
  "\<forall>x\<in>set xs. \<not> isOn im (int x) y \<Longrightarrow> scan_row im y xs s = s"
  by (induction xs) auto

lemma scan_rows_none:
  "\<forall>y\<in>set ys. \<forall>x<width im. \<not> isOn im (int x) (int y) \<Longrightarrow> scan_rows im ys s = s"
  by (induction ys arbitrary: s) (auto simp: scan_row_none)

lemma find_seed_none:
  "\<forall>x<width im. \<forall>y<height im. \<not> isOn im (int x) (int y) \<Longrightarrow> find_seed im = (- 1, - 1)"
  unfolding find_seed_def by (rule scan_rows_none) auto







section \<open>The loop of the walk\<close>




lemma poly_body: "poly (body im s) = poly s @ [(px s, py s)]"
  by (simp add: body_def Let_def)

section \<open>Flat indexing\<close>





section \<open>A single occupied pixel\<close>







section \<open>Concrete overlays\<close>






lemma blank2_off: "\<not> isOn blank2 x y"
  by (simp add: isOn_def at_index_def blank2_def overlay_of_def nth_Cons' )

lemma block4_ring:
  "exportPolygon (Some block4) = Download ''mask.geojson''
     [(1, 1), (2, 1), (2, 1), (2, 2), (2, 2), (1, 2), (1, 2), (1, 1),
      (1, 1), (2, 1), (2, 1), (2, 2), (2, 2), (1, 2), (1, 2)]"
  by code_simp

section \<open>The step of the walk\<close>

lemma and3_mod4: "(d::int) AND 3 = d mod 4"
proof -
  have "(3::int) = mask 2" by (simp add: mask_eq_exp_minus_1)
  then have "d AND 3 = take_bit 2 d" by (simp add: take_bit_eq_mask)
  then show ?thesis by (simp add: take_bit_eq_mod)
qed

lemma probe_towards: "probe im d x y = towards im d x y"
  by (simp add: probe_def towards_def delta_def)

lemma move_delta: "move d (x, y) = (x + fst (delta d), y + snd (delta d))"
  by (simp add: move_def delta_def)

lemma body_pose: "pose (body im s) = wall_step 3 1 im (pose s)"
  by (simp add: body_def pose_def wall_step_def Let_def and3_mod4 probe_towards move_delta)

lemma dir_body: "dir s \<in> {0, 1, 2, 3} \<Longrightarrow> dir (body im s) \<in> {0, 1, 2, 3}"
proof -
  have r: "(d::int) mod 4 \<in> {0, 1, 2, 3}" for d
  proof -
    have "0 \<le> d mod 4" "d mod 4 < 4" by simp_all
    then show ?thesis by auto
  qed
  assume "dir s \<in> {0, 1, 2, 3}"
  then show ?thesis
    using r[of "dir s + 3"] r[of "dir s + 1"]
    by (auto simp: body_def Let_def and3_mod4)
qed

lemma dir_funpow: "dir ((body im ^^ k) (start im seed)) \<in> {0, 1, 2, 3}"
proof (induction k)
  case 0
  show ?case by (simp add: start_def)
next
  case (Suc k)
  then show ?case using dir_body[of "(body im ^^ k) (start im seed)" im] by simp
qed

section \<open>Rounding\<close>

lemma binade_bounds:
  assumes "0 < q"
  shows "2 powi (binade q) \<le> q \<and> q < 2 powi (binade q + 1)"
proof -
  obtain n d where nd: "quotient_of q = (n, d)" by (cases "quotient_of q")
  have dpos: "0 < d" using quotient_of_denom_pos[OF nd] .
  have q: "q = of_int n / of_int d" using quotient_of_div[OF nd] .
  have npos: "0 < n" using assms dpos unfolding q by (simp add: zero_less_divide_iff)
  define a where "a = bitlen n"
  define b where "b = bitlen d"
  have a1: "1 \<le> a" using npos unfolding a_def by (simp add: bitlen_alt_def)
  have b1: "1 \<le> b" using dpos unfolding b_def by (simp add: bitlen_alt_def)
  from bitlen_bounds[OF npos] have nb: "2 ^ nat (a - 1) \<le> n" "n < 2 ^ nat a"
    unfolding a_def by simp_all
  from bitlen_bounds[OF dpos] have db: "2 ^ nat (b - 1) \<le> d" "d < 2 ^ nat b"
    unfolding b_def by simp_all
  have nr: "(2::rat) powi (a - 1) \<le> of_int n" "of_int n < (2::rat) powi a"
  proof -
    have "(of_int (2 ^ nat (a - 1)) :: rat) \<le> of_int n" using nb(1) by (simp only: of_int_le_iff)
    then show "(2::rat) powi (a - 1) \<le> of_int n" using a1 by (simp add: power_int_def)
    have "(of_int n :: rat) < of_int (2 ^ nat a)" using nb(2) by (simp only: of_int_less_iff)
    then show "of_int n < (2::rat) powi a" using a1 by (simp add: power_int_def)
  qed
  have dr: "(2::rat) powi (b - 1) \<le> of_int d" "of_int d < (2::rat) powi b"
  proof -
    have "(of_int (2 ^ nat (b - 1)) :: rat) \<le> of_int d" using db(1) by (simp only: of_int_le_iff)
    then show "(2::rat) powi (b - 1) \<le> of_int d" using b1 by (simp add: power_int_def)
    have "(of_int d :: rat) < of_int (2 ^ nat b)" using db(2) by (simp only: of_int_less_iff)
    then show "of_int d < (2::rat) powi b" using b1 by (simp add: power_int_def)
  qed
  have dposr: "(0::rat) < of_int d" using dpos by simp
  have up: "q < 2 powi (a - b + 1)"
  proof -
    have "q * of_int d = of_int n" unfolding q using dposr by simp
    also have "\<dots> < 2 powi a" by (rule nr(2))
    also have "\<dots> = 2 powi (a - b + 1) * 2 powi (b - 1)"
      by (simp add: power_int_add[symmetric])
    also have "\<dots> \<le> 2 powi (a - b + 1) * of_int d"
      using dr(1) by (intro mult_left_mono) simp_all
    finally show ?thesis using dposr by simp
  qed
  have lo: "2 powi (a - b - 1) \<le> q"
  proof -
    have "2 powi (a - b - 1) * of_int d \<le> 2 powi (a - b - 1) * (2::rat) powi b"
      using dr(2) by (intro mult_left_mono) simp_all
    also have "\<dots> = 2 powi (a - 1)" by (simp add: power_int_add[symmetric])
    also have "\<dots> \<le> of_int n" by (rule nr(1))
    also have "\<dots> = q * of_int d" unfolding q using dposr by simp
    finally show ?thesis using dposr by simp
  qed
  have bin: "binade q = (if 2 powi (a - b) \<le> q then a - b else a - b - 1)"
    by (simp add: binade_def nd a_def b_def Let_def)
  show ?thesis
  proof (cases "2 powi (a - b) \<le> q")
    case True
    then show ?thesis using up bin by simp
  next
    case False
    then have "q < 2 powi (a - b)" by simp
    then show ?thesis using lo bin False by simp
  qed
qed

lemma round_half_even_near:
  "of_int (round_half_even m) \<le> m + 1 / 2 \<and> m - 1 / 2 \<le> of_int (round_half_even m)"
proof -
  define f where "f = \<lfloor>m\<rfloor>"
  have b: "of_int f \<le> m" "m < of_int f + 1" unfolding f_def by linarith+
  have r: "round_half_even m =
      (if m - of_int f < 1 / 2 then f else if 1 / 2 < m - of_int f then f + 1
       else if even f then f else f + 1)"
    by (simp add: round_half_even_def Let_def f_def)
  consider "m - of_int f < 1 / 2" | "1 / 2 < m - of_int f" | "m - of_int f = 1 / 2"
    by linarith
  then show ?thesis
  proof cases
    case 1
    then have "round_half_even m = f" using r by simp
    then show ?thesis using b 1 by simp
  next
    case 2
    then have "round_half_even m = f + 1" using r by simp
    then show ?thesis using b 2 by simp
  next
    case 3
    then have "round_half_even m = f \<or> round_half_even m = f + 1" using r by simp
    then show ?thesis using b 3 by auto
  qed
qed

lemma round_half_even_nonneg: "0 \<le> m \<Longrightarrow> 0 \<le> round_half_even m"
  by (auto simp: round_half_even_def Let_def)

lemma round_half_even_int: "round_half_even (of_int k) = k"
  by (simp add: round_half_even_def Let_def)

lemma fround_pos_eq:
  "0 < q \<Longrightarrow> fround p q =
     of_int (round_half_even (q / 2 powi (binade q - int p + 1))) * 2 powi (binade q - int p + 1)"
  by (simp add: fround_def Let_def)

lemma fround_nonneg: "0 \<le> q \<Longrightarrow> 0 \<le> fround p q"
proof (cases "q = 0")
  case True
  then show ?thesis by (simp add: fround_def)
next
  case False
  assume "0 \<le> q"
  with False have q: "0 < q" by simp
  have "0 \<le> q / 2 powi (binade q - int p + 1)" using q by simp
  then have "0 \<le> round_half_even (q / 2 powi (binade q - int p + 1))"
    by (rule round_half_even_nonneg)
  then show ?thesis unfolding fround_pos_eq[OF q] by simp
qed

lemma fround_upper:
  assumes "0 \<le> q"
  shows "fround p q \<le> q * (1 + 2 powi (- int p))"
proof (cases "q = 0")
  case True
  then show ?thesis by (simp add: fround_def)
next
  case False
  with assms have q: "0 < q" by simp
  define u :: rat where "u = 2 powi (binade q - int p + 1)"
  have upos: "0 < u" unfolding u_def by simp
  have "fround p q = of_int (round_half_even (q / u)) * u"
    unfolding u_def by (rule fround_pos_eq[OF q])
  also have "\<dots> \<le> (q / u + 1 / 2) * u"
    using round_half_even_near[of "q / u"] upos by (intro mult_right_mono) simp_all
  also have "\<dots> = q + u / 2" using upos by (simp add: algebra_simps)
  also have "u / 2 = 2 powi (binade q) * 2 powi (- int p)"
  proof -
    have "binade q - int p + 1 = (binade q + (- int p)) + 1" by simp
    then have "u = 2 powi ((binade q + (- int p)) + 1)" unfolding u_def by simp
    also have "\<dots> = 2 powi (binade q + (- int p)) * 2 powi 1"
      by (rule power_int_add) simp
    also have "2 powi (binade q + (- int p)) = (2::rat) powi (binade q) * 2 powi (- int p)"
      by (rule power_int_add) simp
    finally show ?thesis by simp
  qed
  also have "q + 2 powi (binade q) * 2 powi (- int p) \<le> q + q * 2 powi (- int p)"
    using binade_bounds[OF q] by (simp add: mult_right_mono)
  finally show ?thesis by (simp add: algebra_simps)
qed

lemma fround_exact_pos:
  assumes n: "0 < n" "n \<le> 2 ^ p" and p: "0 < p"
  shows "fround p (of_int n) = of_int n"
proof -
  define q :: rat where "q = of_int n"
  have q: "0 < q" "1 \<le> q" using n(1) unfolding q_def by simp_all
  define e where "e = binade q"
  from binade_bounds[OF q(1)] have b: "2 powi e \<le> q" "q < 2 powi (e + 1)"
    unfolding e_def by simp_all
  have e0: "0 \<le> e"
  proof (rule ccontr)
    assume "\<not> 0 \<le> e"
    then have "e + 1 \<le> 0" by simp
    then have "(2::rat) powi (e + 1) \<le> 2 powi 0" by (intro power_int_increasing) simp_all
    with b(2) q(2) show False by simp
  qed
  have qle: "q \<le> 2 ^ p" unfolding q_def using n(2)
    by (metis of_int_le_iff of_int_numeral of_int_power)
  have ep: "e \<le> int p"
  proof (rule ccontr)
    assume "\<not> e \<le> int p"
    then have "int p + 1 \<le> e" by simp
    then have "(2::rat) powi (int p + 1) \<le> 2 powi e" by (intro power_int_increasing) simp_all
    moreover have "(2::rat) powi (int p + 1) = 2 ^ p * 2" by (simp add: power_int_add)
    ultimately have "2 ^ p * 2 \<le> q" using b(1) by simp
    moreover have "(0::rat) < 2 ^ p" by simp
    ultimately show False using qle by linarith
  qed
  define k where "k = e - int p + 1"
  have "\<exists>m::int. q / 2 powi k = of_int m"
  proof (cases "k \<le> 0")
    case True
    have "q / 2 powi k = q * 2 powi (- k)" by (simp add: power_int_minus field_simps)
    also have "\<dots> = q * 2 ^ nat (- k)" using True by (simp add: power_int_def)
    also have "\<dots> = of_int (n * 2 ^ nat (- k))" unfolding q_def by simp
    finally show ?thesis by blast
  next
    case False
    then have ek: "e = int p" "k = 1" using ep unfolding k_def by simp_all
    have "2 ^ p \<le> q" using b(1) unfolding ek by simp
    with qle have qe: "q = 2 ^ p" by simp
    obtain p' where p': "p = Suc p'" using p by (cases p) auto
    have "q / 2 powi k = of_int (2 ^ p')" unfolding qe ek p' by simp
    then show ?thesis by blast
  qed
  then obtain m :: int where m: "q / 2 powi k = of_int m" by blast
  have upos: "(2::rat) powi k \<noteq> 0" by simp
  have "fround p q = of_int (round_half_even (q / 2 powi k)) * 2 powi k"
    unfolding k_def e_def by (rule fround_pos_eq[OF q(1)])
  also have "\<dots> = (q / 2 powi k) * 2 powi k"
    unfolding m round_half_even_int ..
  also have "\<dots> = q" using upos by simp
  finally show ?thesis unfolding q_def .
qed

lemma fround_neg: "fround p (- q) = - fround p q"
  by (simp add: fround_def Let_def)

lemma fround_exact:
  assumes "\<bar>n\<bar> \<le> 2 ^ p" "0 < p"
  shows "fround p (of_int n) = of_int n"
proof -
  consider "n = 0" | "0 < n" | "n < 0" by linarith
  then show ?thesis
  proof cases
    case 1
    then show ?thesis by (simp add: fround_def)
  next
    case 2
    then show ?thesis using assms by (intro fround_exact_pos) simp_all
  next
    case 3
    then have "fround p (of_int (- n)) = of_int (- n)"
      using assms by (intro fround_exact_pos) simp_all
    then show ?thesis using fround_neg[of p "of_int n"] by simp
  qed
qed

section \<open>The mapped source coordinate\<close>

lemma src_coord_nonneg: "0 \<le> src_coord x W M"
proof -
  have "0 \<le> fdiv (of_nat x) (of_nat W)" unfolding fdiv_def by (rule fround_nonneg) simp
  then have "0 \<le> fdiv (of_nat x) (of_nat W) * of_nat M" by simp
  then have "0 \<le> fmul (fdiv (of_nat x) (of_nat W)) (of_nat M)"
    unfolding fmul_def by (rule fround_nonneg)
  then show ?thesis unfolding src_coord_def by simp
qed

lemma src_coord_less:
  assumes x: "x < W" and W: "W \<le> 2 ^ 51" and M: "0 < M"
  shows "src_coord x W M < int M"
proof -
  define e :: rat where "e = 2 powi (- 53)"
  have e: "0 < e" "e = 1 / 2 ^ 53" unfolding e_def by (simp_all add: power_int_minus field_simps)
  define q1 :: rat where "q1 = of_nat x / of_nat W"
  define r1 where "r1 = fdiv (of_nat x) (of_nat W)"
  define r2 where "r2 = fmul r1 (of_nat M)"
  have Wpos: "(0::rat) < of_nat W" using x by simp
  have q1: "0 \<le> q1" unfolding q1_def by simp
  have r1: "0 \<le> r1" "r1 \<le> q1 * (1 + e)"
    unfolding r1_def fdiv_def q1_def[symmetric] e_def
    using fround_nonneg[OF q1] fround_upper[OF q1, of 53] by simp_all
  have r1M: "0 \<le> r1 * of_nat M" using r1(1) by simp
  have "r2 \<le> r1 * of_nat M * (1 + e)"
    unfolding r2_def fmul_def e_def using fround_upper[OF r1M, of 53] by simp
  also have "\<dots> \<le> (q1 * (1 + e)) * of_nat M * (1 + e)"
    using r1(2) e(1) by (intro mult_right_mono) simp_all
  also have "\<dots> = of_nat M * (q1 * ((1 + e) * (1 + e)))" by (simp add: algebra_simps)
  finally have r2: "r2 \<le> of_nat M * (q1 * ((1 + e) * (1 + e)))" .
  have key: "q1 * ((1 + e) * (1 + e)) < 1"
  proof -
    have "(1 + e) * (1 + e) \<le> 1 + 3 * e"
    proof -
      have "e * e \<le> e * 1" using e by (intro mult_left_mono) (simp_all add: e(2) field_simps)
      then show ?thesis by (simp add: algebra_simps)
    qed
    then have "q1 * ((1 + e) * (1 + e)) \<le> q1 * (1 + 3 * e)"
      using q1 by (rule mult_left_mono)
    also have "\<dots> < 1"
    proof -
      have xle: "(of_nat x :: rat) \<le> of_nat W - 1" using x by (simp add: Suc_le_eq[symmetric] of_nat_diff le_diff_conv2 flip: of_nat_Suc)
      have Wle: "(of_nat W :: rat) \<le> 2 ^ 51"
        using W by (metis of_nat_le_iff of_nat_numeral of_nat_power)
      have "of_nat x * (1 + 3 * e) \<le> (of_nat W - 1) * (1 + 3 * e)"
        using xle e(1) by (intro mult_right_mono) simp_all
      also have "\<dots> = of_nat W - 1 + 3 * e * (of_nat W - 1)" by (simp add: algebra_simps)
      also have "3 * e * (of_nat W - 1) < 1"
      proof -
        have "3 * e * (of_nat W - 1) \<le> 3 * e * (2 ^ 51 - 1)"
          using Wle e(1) by (intro mult_left_mono) simp_all
        also have "\<dots> < 1" unfolding e(2) by simp
        finally show ?thesis .
      qed
      finally have "of_nat x * (1 + 3 * e) < of_nat W" by simp
      then show ?thesis unfolding q1_def using Wpos by (simp add: field_simps)
    qed
    finally show ?thesis .
  qed
  have "of_nat M * (q1 * ((1 + e) * (1 + e))) < (of_nat M :: rat) * 1"
    using key M by (intro mult_strict_left_mono) simp_all
  with r2 have "r2 < of_nat M" by simp
  then have "\<lfloor>r2\<rfloor> < int M" by (simp add: floor_less_iff)
  then show ?thesis unfolding src_coord_def r2_def r1_def .
qed

section \<open>The resampling loops\<close>

lemma length_put_pixel: "length (put_pixel d idx a) = length d"
  by (simp add: put_pixel_def)

lemma put_pixel_other: "k div 4 \<noteq> j \<Longrightarrow> put_pixel d (j * 4) a ! k = d ! k"
  by (auto simp: put_pixel_def nth_list_update)

lemma put_pixel_here:
  assumes "j * 4 + 3 < length d" "c < 4"
  shows "put_pixel d (j * 4) a ! (j * 4 + c) = (if c = 3 then a else 0)"
  using assms by (auto simp: put_pixel_def nth_list_update)

lemma length_fold_put:
  "length (fold (\<lambda>i d. put_pixel d (g i * 4) (a i)) xs d) = length d"
  by (induction xs arbitrary: d) (simp_all add: length_put_pixel)

lemma fold_put_other:
  "k div 4 \<notin> g ` set xs \<Longrightarrow> fold (\<lambda>i d. put_pixel d (g i * 4) (a i)) xs d ! k = d ! k"
  by (induction xs arbitrary: d) (simp_all add: put_pixel_other)

lemma fold_put_here:
  assumes "distinct (map g xs)" "i \<in> set xs" "g i * 4 + 3 < length d" "c < 4"
  shows "fold (\<lambda>i d. put_pixel d (g i * 4) (a i)) xs d ! (g i * 4 + c) = (if c = 3 then a i else 0)"
  using assms
proof (induction xs arbitrary: d)
  case Nil
  then show ?case by simp
next
  case (Cons x xs)
  let ?F = "\<lambda>i d. put_pixel d (g i * 4) (a i)"
  show ?case
  proof (cases "i = x")
    case True
    have nd: "(g x * 4 + c) div 4 \<notin> g ` set xs"
      using Cons.prems(1,4) by auto
    have "fold ?F (x # xs) d ! (g x * 4 + c) = put_pixel d (g x * 4) (a x) ! (g x * 4 + c)"
      using fold_put_other[OF nd, of a "put_pixel d (g x * 4) (a x)"] by simp
    also have "\<dots> = (if c = 3 then a x else 0)"
      using Cons.prems(3,4) True by (intro put_pixel_here) simp_all
    finally show ?thesis using True by simp
  next
    case False
    then have "i \<in> set xs" using Cons.prems(2) by simp
    moreover have "distinct (map g xs)" using Cons.prems(1) by simp
    moreover have "g i * 4 + 3 < length (put_pixel d (g x * 4) (a x))"
      using Cons.prems(3) by (simp add: length_put_pixel)
    ultimately have "fold ?F xs (put_pixel d (g x * 4) (a x)) ! (g i * 4 + c) = (if c = 3 then a i else 0)"
      using Cons.prems(4) by (intro Cons.IH) simp_all
    then show ?thesis by simp
  qed
qed

text \<open>The value that the loops store for the destination pixel \<open>(x, y)\<close>.\<close>

lemma resample_row_fold:
  "resample_row m MH MW W H y d0 =
     fold (\<lambda>x d. put_pixel d ((y * W + x) * 4)
                    (alpha_of (at_index (tdata m)
                       (src_coord y H MH * int MW + src_coord x W MW))))
          [0..<W] d0"
  by (simp add: resample_row_def Let_def)

lemma length_resample_row: "length (resample_row m MH MW W H y d) = length d"
  unfolding resample_row_fold by (rule length_fold_put)

lemma resample_row_other:
  assumes "\<forall>x<W. k div 4 \<noteq> y * W + x"
  shows "resample_row m MH MW W H y d ! k = d ! k"
proof -
  have "k div 4 \<notin> (\<lambda>x. y * W + x) ` set [0..<W]"
  proof
    assume "k div 4 \<in> (\<lambda>x. y * W + x) ` set [0..<W]"
    then obtain x where "x \<in> set [0..<W]" "k div 4 = y * W + x" by (rule imageE)
    then have "x < W" "k div 4 = y * W + x" by simp_all
    with assms show False by blast
  qed
  then show ?thesis unfolding resample_row_fold by (rule fold_put_other)
qed

lemma resample_row_here:
  assumes "x < W" "(y * W + x) * 4 + 3 < length d" "c < 4"
  shows "resample_row m MH MW W H y d ! ((y * W + x) * 4 + c) =
         (if c = 3 then alpha_of (at_index (tdata m) (src_coord y H MH * int MW + src_coord x W MW))
          else 0)"
proof -
  have d: "distinct (map (\<lambda>x. y * W + x) [0..<W])"
    by (simp add: distinct_map inj_on_def)
  show ?thesis
    unfolding resample_row_fold
    using fold_put_here[OF d, of x d c] assms by simp
qed

lemma length_fold_rows:
  "length (fold (\<lambda>y d. resample_row m MH MW W H y d) ys d) = length d"
  by (induction ys arbitrary: d) (simp_all add: length_resample_row)

lemma row_index_unique:
  assumes "x < W" "x' < W" "y * W + x = y' * W + x'"
  shows "y = (y'::nat)"
proof -
  have "(y * W + x) div W = y" "(y' * W + x') div W = y'" using assms(1,2) by simp_all
  with assms(3) show ?thesis by simp
qed

lemma fold_rows_other:
  assumes "x < W" "y \<notin> set ys" "c < 4"
  shows "fold (\<lambda>y d. resample_row m MH MW W H y d) ys d ! ((y * W + x) * 4 + c) =
         d ! ((y * W + x) * 4 + c)"
  using assms
proof (induction ys arbitrary: d)
  case Nil
  then show ?case by simp
next
  case (Cons y' ys)
  have dv: "((y * W + x) * 4 + c) div 4 = y * W + x" using Cons.prems(3) by simp
  have "\<forall>x'<W. ((y * W + x) * 4 + c) div 4 \<noteq> y' * W + x'"
    unfolding dv using row_index_unique[of x W _ y y'] Cons.prems(1,2) by auto
  then have "resample_row m MH MW W H y' d ! ((y * W + x) * 4 + c) = d ! ((y * W + x) * 4 + c)"
    by (rule resample_row_other)
  moreover have "y \<notin> set ys" using Cons.prems(2) by simp
  ultimately show ?case using Cons.IH[OF Cons.prems(1) _ Cons.prems(3)] by simp
qed

lemma fold_rows_here:
  assumes "x < W" "y \<in> set ys" "distinct ys" "(y * W + x) * 4 + 3 < length d" "c < 4"
  shows "fold (\<lambda>y d. resample_row m MH MW W H y d) ys d ! ((y * W + x) * 4 + c) =
         (if c = 3 then alpha_of (at_index (tdata m) (src_coord y H MH * int MW + src_coord x W MW))
          else 0)"
  using assms
proof (induction ys arbitrary: d)
  case Nil
  then show ?case by simp
next
  case (Cons y' ys)
  show ?case
  proof (cases "y = y'")
    case True
    then have "y \<notin> set ys" using Cons.prems(3) by simp
    from fold_rows_other[OF Cons.prems(1) this Cons.prems(5)]
    have "fold (\<lambda>y d. resample_row m MH MW W H y d) (y' # ys) d ! ((y * W + x) * 4 + c) =
          resample_row m MH MW W H y d ! ((y * W + x) * 4 + c)"
      using True by simp
    then show ?thesis
      using resample_row_here[OF Cons.prems(1,4,5)] by simp
  next
    case False
    then have "y \<in> set ys" using Cons.prems(2) by simp
    moreover have "distinct ys" using Cons.prems(3) by simp
    moreover have "(y * W + x) * 4 + 3 < length (resample_row m MH MW W H y' d)"
      using Cons.prems(4) by (simp add: length_resample_row)
    ultimately show ?thesis using Cons.IH[OF Cons.prems(1) _ _ _ Cons.prems(5)] by simp
  qed
qed

lemma length_resample: "length (resample m MH MW W H) = 4 * W * H"
  by (simp add: resample_def length_fold_rows)

lemma pixel_offset_bound:
  assumes "x < W" "y < H"
  shows "(y * W + x) * 4 + 3 < 4 * W * (H::nat)"
proof -
  have "y * W + x < y * W + W" using assms(1) by simp
  also have "\<dots> = (y + 1) * W" by simp
  also have "\<dots> \<le> H * W" using assms(2) by (intro mult_right_mono) simp_all
  finally have "y * W + x < H * W" .
  then show ?thesis by (simp add: algebra_simps)
qed

lemma resample_pixel:
  assumes "x < W" "y < H" "c < 4"
  shows "resample m MH MW W H ! ((y * W + x) * 4 + c) =
         (if c = 3 then alpha_of (at_index (tdata m) (src_coord y H MH * int MW + src_coord x W MW))
          else 0)"
  unfolding resample_def
  using assms pixel_offset_bound[OF assms(1,2)]
  by (intro fold_rows_here) simp_all

section \<open>The mask of a run\<close>

lemma at_index_int: "at_index xs (int k) = (if k < length xs then Some (xs ! k) else None)"
  by (simp add: at_index_def)

lemma isOn_nat:
  "isOn im (int x) (int y) \<longleftrightarrow>
     (y * width im + x) * 4 + 3 < length (data im) \<and> 0 < data im ! ((y * width im + x) * 4 + 3)"
proof -
  have e: "(int y * int (width im) + int x) * 4 + 3 = int ((y * width im + x) * 4 + 3)" by simp
  show ?thesis unfolding isOn_def e at_index_int by simp
qed

lemma two_masks_run:
  "run_mask (Some two_masks) 1 1 = Inr \<lparr>width = 1, height = 1, data = [0, 0, 0, 110]\<rparr>"
  by code_simp

lemma no_data_run:
  "run_mask (Some no_data) 1 1 = Inr \<lparr>width = 1, height = 1, data = [0, 0, 0, 0]\<rparr>"
  by code_simp

lemma alpha_of_cases: "alpha_of v = (if above v then 110 else 0)"
  by (simp add: alpha_of_def)

lemma above_iff:
  "above v \<longleftrightarrow> (\<exists>r. v = Some (Num r) \<and> 0 < r) \<or> v = Some PosInf"
proof (cases v)
  case None
  then show ?thesis by (simp add: above_def)
next
  case (Some n)
  then show ?thesis by (cases n) (simp_all add: above_def threshold_def)
qed

lemma run_mask_ok:
  assumes "mask_shape (dims m) = Some (MH, MW)" "0 < W" "0 < H"
  shows "run_mask (Some m) W H = Inr \<lparr>width = W, height = H, data = resample m MH MW W H\<rparr>"
  using assms by (simp add: run_mask_def)

lemma mask_shape_Some: "(\<exists>s. mask_shape sh = Some s) \<longleftrightarrow> length sh \<in> {2, 3, 4}"
  by (auto simp: mask_shape_def)

lemma raw22_shape: "mask_shape (dims raw22) = Some (2, 2)"
  by (simp add: mask_shape_def raw22_def)

section \<open>The prompt tensors\<close>

lemma prompt_step_fields:
  "n_points (prompt_step points i f) = n_points f"
  "length (point_coords (prompt_step points i f)) = length (point_coords f)"
  "length (point_labels (prompt_step points i f)) = length (point_labels f)"
  by (simp_all add: prompt_step_def Let_def store32_def)

lemma prompt_step_coord:
  "k < length (point_coords f) \<Longrightarrow>
   point_coords (prompt_step points i f) ! k =
     (if k div 2 = i
      then fround 24 (of_int (if even k then pt_x (point_or_default points i)
                              else pt_y (point_or_default points i)))
      else point_coords f ! k)"
  by (auto simp: prompt_step_def Let_def store32_def nth_list_update elim!: evenE oddE)

lemma prompt_step_label:
  "j < length (point_labels f) \<Longrightarrow>
   point_labels (prompt_step points i f) ! j =
     (if j = i then fround 24 (of_int (label_num (pt_label (point_or_default points i))))
      else point_labels f ! j)"
  by (auto simp: prompt_step_def Let_def store32_def nth_list_update)

lemma fold_prompt_fields:
  "n_points (fold (prompt_step points) xs f) = n_points f
   \<and> length (point_coords (fold (prompt_step points) xs f)) = length (point_coords f)
   \<and> length (point_labels (fold (prompt_step points) xs f)) = length (point_labels f)"
  by (induction xs arbitrary: f) (simp_all add: prompt_step_fields)

lemma fold_prompt_coord:
  "k < length (point_coords f) \<Longrightarrow>
   point_coords (fold (prompt_step points) xs f) ! k =
     (if k div 2 \<in> set xs
      then fround 24 (of_int (if even k then pt_x (point_or_default points (k div 2))
                              else pt_y (point_or_default points (k div 2))))
      else point_coords f ! k)"
proof (induction xs arbitrary: f)
  case Nil
  show ?case by simp
next
  case (Cons x xs)
  have "k < length (point_coords (prompt_step points x f))"
    using Cons.prems by (simp add: prompt_step_fields)
  from Cons.IH[OF this] show ?case
    using prompt_step_coord[OF Cons.prems, of points x] by auto
qed

lemma fold_prompt_label:
  "j < length (point_labels f) \<Longrightarrow>
   point_labels (fold (prompt_step points) xs f) ! j =
     (if j \<in> set xs
      then fround 24 (of_int (label_num (pt_label (point_or_default points j))))
      else point_labels f ! j)"
proof (induction xs arbitrary: f)
  case Nil
  show ?case by simp
next
  case (Cons x xs)
  have "j < length (point_labels (prompt_step points x f))"
    using Cons.prems by (simp add: prompt_step_fields)
  from Cons.IH[OF this] show ?case
    using prompt_step_label[OF Cons.prems, of points x] by auto
qed

lemma label_num_exact: "fround 24 (of_int (label_num l)) = of_int (label_num l)"
  by (rule fround_exact) (simp_all add: label_num_def split: plabel.splits)

lemma label_num_value: "(of_int (label_num l) :: rat) = (if l = FG then 1 else 0)"
  by (cases l) (simp_all add: label_num_def)

lemma build_prompts_empty:
  "build_prompts [] = \<lparr>n_points = 1, point_coords = [0, 0], point_labels = [0]\<rparr>"
  by (simp add: build_prompts_def prompt_step_def point_or_default_def store32_def
      label_num_def fround_def numeral_2_eq_2)

section \<open>The exported image\<close>

lemma length_png_pixel: "length (png_pixel src bin i) = length bin"
  by (simp add: png_pixel_def Let_def)

lemma png_pixel_other: "j div 4 \<noteq> k \<Longrightarrow> png_pixel src bin (k * 4) ! j = bin ! j"
  by (auto simp: png_pixel_def Let_def nth_list_update)

lemma png_pixel_here:
  assumes "k * 4 + 3 < length bin" "c < 4"
  shows "png_pixel src bin (k * 4) ! (k * 4 + c) =
         (if c = 3
          then (if (case at_index src (int (k * 4) + 3) of None \<Rightarrow> False | Some a \<Rightarrow> 0 < a)
                then 255 else 0)
          else 255)"
  using assms by (auto simp: png_pixel_def Let_def nth_list_update)

lemma length_fold_png:
  "length (fold (\<lambda>k bin. png_pixel src bin (k * 4)) ks bin) = length bin"
  by (induction ks arbitrary: bin) (simp_all add: length_png_pixel)

lemma fold_png_other:
  "j div 4 \<notin> set ks \<Longrightarrow> fold (\<lambda>k bin. png_pixel src bin (k * 4)) ks bin ! j = bin ! j"
  by (induction ks arbitrary: bin) (simp_all add: png_pixel_other)

lemma fold_png_here:
  assumes "distinct ks" "k \<in> set ks" "k * 4 + 3 < length bin" "c < 4"
  shows "fold (\<lambda>k bin. png_pixel src bin (k * 4)) ks bin ! (k * 4 + c) =
         (if c = 3
          then (if (case at_index src (int (k * 4) + 3) of None \<Rightarrow> False | Some a \<Rightarrow> 0 < a)
                then 255 else 0)
          else 255)"
  using assms
proof (induction ks arbitrary: bin)
  case Nil
  then show ?case by simp
next
  case (Cons x ks)
  let ?F = "\<lambda>k bin. png_pixel src bin (k * 4)"
  show ?case
  proof (cases "k = x")
    case True
    have nd: "(x * 4 + c) div 4 \<notin> set ks" using Cons.prems(1,4) by simp
    have "fold ?F (x # ks) bin ! (x * 4 + c) = png_pixel src bin (x * 4) ! (x * 4 + c)"
      using fold_png_other[OF nd, of src "png_pixel src bin (x * 4)"] by simp
    also have "\<dots> = (if c = 3
          then (if (case at_index src (int (x * 4) + 3) of None \<Rightarrow> False | Some a \<Rightarrow> 0 < a)
                then 255 else 0)
          else 255)"
      using Cons.prems(3,4) True by (intro png_pixel_here) simp_all
    finally show ?thesis using True by simp
  next
    case False
    then have "k \<in> set ks" using Cons.prems(2) by simp
    moreover have "distinct ks" using Cons.prems(1) by simp
    moreover have "k * 4 + 3 < length (png_pixel src bin (x * 4))"
      using Cons.prems(3) by (simp add: length_png_pixel)
    ultimately have "fold ?F ks (png_pixel src bin (x * 4)) ! (k * 4 + c) =
        (if c = 3
          then (if (case at_index src (int (k * 4) + 3) of None \<Rightarrow> False | Some a \<Rightarrow> 0 < a)
                then 255 else 0)
          else 255)"
      using Cons.prems(4) by (intro Cons.IH) simp_all
    then show ?thesis by simp
  qed
qed

lemma exportPNG_pixel:
  assumes wf: "wf_image ov" and x: "x < width ov" and y: "y < height ov" and c: "c < 4"
  shows "\<exists>out. exportPNG (Some ov) = Download ''mask.png'' out
           \<and> width out = width ov \<and> height out = height ov
           \<and> length (data out) = 4 * width ov * height ov
           \<and> data out ! ((y * width ov + x) * 4 + c) =
               (if c = 3 then (if isOn ov (int x) (int y) then 255 else 0) else 255)"
proof -
  define W where "W = width ov"
  define H where "H = height ov"
  define k where "k = y * W + x"
  define out where "out = \<lparr>width = W, height = H,
      data = fold (\<lambda>k bin. png_pixel (data ov) bin (k * 4))
               [0..<(length (data ov) + 3) div 4] (replicate (4 * W * H) 0)\<rparr>"
  have pos: "W \<noteq> 0" "H \<noteq> 0" using x y by (auto simp: W_def H_def)
  have ex: "exportPNG (Some ov) = Download ''mask.png'' out"
    using pos by (simp add: exportPNG_def out_def W_def H_def)
  have len: "length (data ov) = 4 * W * H" using wf by (simp add: wf_image_def W_def H_def)
  have cnt: "(length (data ov) + 3) div 4 = W * H" unfolding len by simp
  have kb: "k * 4 + 3 < 4 * W * H"
    unfolding k_def using pixel_offset_bound[of x W y H] x y by (simp add: W_def H_def)
  then have kin: "k \<in> set [0..<W * H]" by simp
  have lo: "length (data out) = 4 * W * H" by (simp add: out_def length_fold_png)
  have idx: "(int y * int (width ov) + int x) * 4 + 3 = int (k * 4) + 3"
    by (simp add: k_def W_def)
  have on: "isOn ov (int x) (int y) =
      (case at_index (data ov) (int (k * 4) + 3) of None \<Rightarrow> False | Some a \<Rightarrow> 0 < a)"
    unfolding isOn_def idx ..
  have "data out ! (k * 4 + c) =
        (if c = 3 then (if isOn ov (int x) (int y) then 255 else 0) else 255)"
    unfolding on out_def cnt
    using fold_png_here[of "[0..<W * H]" k "replicate (4 * W * H) 0" c "data ov"] kin kb c
    by simp
  then show ?thesis
    using ex lo unfolding k_def W_def H_def by (intro exI[of _ out]) (simp add: out_def W_def H_def)
qed


section \<open>The claims\<close>

text \<open>
  C1, the claim as stated fails: from the seed \<open>(1, 1)\<close> of the 4 x 4 grid with the
  centre block occupied, facing RIGHT, the loop body steps ahead to \<open>(2, 1)\<close>, while
  the rule of the claim (preferred side \<open>dir + 1\<close>, fallback \<open>dir + 3\<close>) turns to DOWN
  and steps to \<open>(1, 2)\<close>.
\<close>

theorem claimed_step_counterexample:
  "pose (start block4 (1, 1)) = (1, 1, 0)
   \<and> pose (body block4 (start block4 (1, 1))) = (2, 1, 0)
   \<and> wall_step 1 3 block4 (1, 1, 0) = (1, 2, 1)"
  by code_simp

text \<open>
  C1, as amended. Every iteration of the loop is the wall-following step whose
  preferred side is \<open>dir + 3\<close> modulo 4 (the variable \<open>right\<close> of the source, UP when
  facing RIGHT) and whose fallback turn is \<open>dir + 1\<close> modulo 4 (the variable \<open>left\<close>):
  if the cell on the preferred side is occupied, turn there and step one cell; else if
  the cell ahead is occupied, step ahead; else take the fallback turn without stepping.
  The position before the decision is appended to the polygon, and the direction stays
  among 0, 1, 2, 3 throughout the walk.
\<close>

theorem body_is_left_first_step:
  "pose (body im s) = wall_step 3 1 im (pose s)
   \<and> poly (body im s) = poly s @ [(px s, py s)]
   \<and> dir ((body im ^^ k) (start im seed)) \<in> {0, 1, 2, 3}"
  by (simp only: body_pose poly_body dir_funpow simp_thms)



text \<open>
  C3. When the mask shape is \<open>(MH, MW)\<close>, the run yields a grid of \<open>W\<close> by \<open>H\<close>
  pixels (four bytes each). For every destination pixel \<open>(x, y)\<close> of it the source
  coordinates are \<open>floor((x / W) * MW)\<close> and \<open>floor((y / H) * MH)\<close>, evaluated in double
  arithmetic as the source writes them. The pixel is occupied exactly when the one
  sample read at \<open>srcY * MW + srcX\<close> is a number greater than 0, the threshold, or is
  plus infinity; it is free when the sample is at most 0, minus infinity, NaN or
  missing. Its colour bytes are 0 and its alpha is 110 when occupied, 0 when free.
  The double evaluation can give one less than the exact quotient: for \<open>x = 1\<close>,
  \<open>W = 49\<close> and \<open>MW = 49\<close> it gives 0, where the exact floor is 1.
\<close>

theorem resample_nearest_neighbour:
  assumes "mask_shape (dims m) = Some (MH, MW)" "x < W" "y < H"
  shows "(\<exists>im srcX srcY.
           run_mask (Some m) W H = Inr im
         \<and> width im = W \<and> height im = H \<and> length (data im) = 4 * W * H
         \<and> srcX = \<lfloor>fmul (fdiv (of_nat x) (of_nat W)) (of_nat MW)\<rfloor>
         \<and> srcY = \<lfloor>fmul (fdiv (of_nat y) (of_nat H)) (of_nat MH)\<rfloor>
         \<and> (isOn im (int x) (int y) \<longleftrightarrow>
               (\<exists>r. at_index (tdata m) (srcY * int MW + srcX) = Some (Num r) \<and> 0 < r)
               \<or> at_index (tdata m) (srcY * int MW + srcX) = Some PosInf)
         \<and> data im ! ((y * W + x) * 4) = 0
         \<and> data im ! ((y * W + x) * 4 + 1) = 0
         \<and> data im ! ((y * W + x) * 4 + 2) = 0
         \<and> data im ! ((y * W + x) * 4 + 3) = (if isOn im (int x) (int y) then 110 else 0))
       \<and> threshold = 0
       \<and> \<lfloor>fmul (fdiv (of_nat 1) (of_nat 49)) (of_nat 49)\<rfloor> = 0
       \<and> \<lfloor>(of_nat 1 / of_nat 49 * of_nat 49 :: rat)\<rfloor> = 1"
proof -
  define im where "im = \<lparr>width = W, height = H, data = resample m MH MW W H\<rparr>"
  define srcX where "srcX = src_coord x W MW"
  define srcY where "srcY = src_coord y H MH"
  define v where "v = at_index (tdata m) (srcY * int MW + srcX)"
  have pos: "0 < W" "0 < H" using assms(2,3) by simp_all
  have run: "run_mask (Some m) W H = Inr im"
    unfolding im_def by (rule run_mask_ok[OF assms(1) pos])
  have len: "length (data im) = 4 * W * H" by (simp add: im_def length_resample)
  have px: "data im ! ((y * W + x) * 4 + c) = (if c = 3 then alpha_of v else 0)" if "c < 4" for c
    unfolding im_def srcX_def srcY_def v_def using resample_pixel[OF assms(2,3) that] by simp
  have a: "data im ! ((y * W + x) * 4 + 3) = (if above v then 110 else 0)"
    using px[of 3] by (simp add: alpha_of_cases)
  have b: "data im ! ((y * W + x) * 4) = 0" using px[of 0] by simp
  have c: "data im ! ((y * W + x) * 4 + 1) = 0" using px[of 1] by simp
  have d: "data im ! ((y * W + x) * 4 + 2) = 0" using px[of 2] by simp
  have inb: "(y * W + x) * 4 + 3 < length (data im)"
    unfolding len by (rule pixel_offset_bound[OF assms(2,3)])
  have on: "isOn im (int x) (int y) \<longleftrightarrow> above v"
    using inb a unfolding isOn_nat by (simp add: im_def)
  have on': "isOn im (int x) (int y) \<longleftrightarrow>
      (\<exists>r. at_index (tdata m) (srcY * int MW + srcX) = Some (Num r) \<and> 0 < r)
      \<or> at_index (tdata m) (srcY * int MW + srcX) = Some PosInf"
    unfolding on above_iff v_def ..
  have a': "data im ! ((y * W + x) * 4 + 3) = (if isOn im (int x) (int y) then 110 else 0)"
    unfolding on by (rule a)
  have wh: "width im = W" "height im = H" by (simp_all add: im_def)
  have sx: "srcX = \<lfloor>fmul (fdiv (of_nat x) (of_nat W)) (of_nat MW)\<rfloor>"
    by (simp add: srcX_def src_coord_def)
  have sy: "srcY = \<lfloor>fmul (fdiv (of_nat y) (of_nat H)) (of_nat MH)\<rfloor>"
    by (simp add: srcY_def src_coord_def)
  have main: "\<exists>im srcX srcY.
           run_mask (Some m) W H = Inr im
         \<and> width im = W \<and> height im = H \<and> length (data im) = 4 * W * H
         \<and> srcX = \<lfloor>fmul (fdiv (of_nat x) (of_nat W)) (of_nat MW)\<rfloor>
         \<and> srcY = \<lfloor>fmul (fdiv (of_nat y) (of_nat H)) (of_nat MH)\<rfloor>
         \<and> (isOn im (int x) (int y) \<longleftrightarrow>
               (\<exists>r. at_index (tdata m) (srcY * int MW + srcX) = Some (Num r) \<and> 0 < r)
               \<or> at_index (tdata m) (srcY * int MW + srcX) = Some PosInf)
         \<and> data im ! ((y * W + x) * 4) = 0
         \<and> data im ! ((y * W + x) * 4 + 1) = 0
         \<and> data im ! ((y * W + x) * 4 + 2) = 0
         \<and> data im ! ((y * W + x) * 4 + 3) = (if isOn im (int x) (int y) then 110 else 0)"
    using run wh len sx sy on' a' b c d by blast
  have th: "threshold = 0" by (simp add: threshold_def)
  have r1: "\<lfloor>fmul (fdiv (of_nat 1) (of_nat 49)) (of_nat 49)\<rfloor> = 0" by code_simp
  have r2: "\<lfloor>(of_nat 1 / of_nat 49 * of_nat 49 :: rat)\<rfloor> = 1" by simp
  show ?thesis using main th r1 r2 by blast
qed

theorem resample_nearest_neighbour_witness:
  "mask_shape (dims raw22) = Some (2, 2)
   \<and> at_index (tdata raw22) 0 = Some (Num (4 / 5))
   \<and> at_index (tdata raw22) 1 = Some (Num (- 1 / 5))
   \<and> (\<exists>im. run_mask (Some raw22) 4 4 = Inr im \<and> length (data im) = 64
            \<and> isOn im 0 0 \<and> data im ! 3 = 110
            \<and> \<not> isOn im 2 1 \<and> data im ! 27 = 0)"
proof -
  have s0: "\<lfloor>fmul (fdiv (of_nat 0) (of_nat 4)) (of_nat 2)\<rfloor> = 0" by code_simp
  have s2: "\<lfloor>fmul (fdiv (of_nat 2) (of_nat 4)) (of_nat 2)\<rfloor> = 1" by code_simp
  have s1: "\<lfloor>fmul (fdiv (of_nat 1) (of_nat 4)) (of_nat 2)\<rfloor> = 0" by code_simp
  have v0: "at_index (tdata raw22) (0 * int 2 + 0) = Some (Num (4 / 5))"
    by (simp add: raw22_def at_index_def)
  have v1: "at_index (tdata raw22) (0 * int 2 + 1) = Some (Num (- 1 / 5))"
    by (simp add: raw22_def at_index_def)
  have h0: "(0::nat) < 4" by simp
  have h: "(2::nat) < 4" "(1::nat) < 4" by simp_all
  from resample_nearest_neighbour[OF raw22_shape h0 h0] obtain im where
    t: "run_mask (Some raw22) 4 4 = Inr im" "length (data im) = 4 * 4 * 4"
      "isOn im (int 0) (int 0) \<longleftrightarrow>
         (\<exists>r. at_index (tdata raw22) (0 * int 2 + 0) = Some (Num r) \<and> 0 < r)
         \<or> at_index (tdata raw22) (0 * int 2 + 0) = Some PosInf"
      "data im ! ((0 * 4 + 0) * 4 + 3) = (if isOn im (int 0) (int 0) then 110 else 0)"
    unfolding s0 by blast
  from resample_nearest_neighbour[OF raw22_shape h] obtain im' where
    u: "run_mask (Some raw22) 4 4 = Inr im'"
      "isOn im' (int 2) (int 1) \<longleftrightarrow>
         (\<exists>r. at_index (tdata raw22) (0 * int 2 + 1) = Some (Num r) \<and> 0 < r)
         \<or> at_index (tdata raw22) (0 * int 2 + 1) = Some PosInf"
      "data im' ! ((1 * 4 + 2) * 4 + 3) = (if isOn im' (int 2) (int 1) then 110 else 0)"
    unfolding s2 s1 by blast
  have same: "im' = im" using t(1) u(1) by simp
  have e0: "\<exists>r. Some (Num (4 / 5)) = Some (Num r) \<and> 0 < r"
    by (rule exI[of _ "4 / 5"]) simp
  have e1: "\<not> (\<exists>r. Some (Num (- 1 / 5)) = Some (Num r) \<and> 0 < r)"
  proof
    assume "\<exists>r. Some (Num (- 1 / 5)) = Some (Num r) \<and> 0 < r"
    then obtain r :: rat where r: "Some (Num (- 1 / 5)) = Some (Num r)" "0 < r" by blast
    from r(1) have "r = - 1 / 5" by (simp only: option.inject jsnum.inject)
    with r(2) show False by simp
  qed
  have e2: "Some (Num (- 1 / 5)) \<noteq> Some PosInf" by simp
  have "isOn im (int 0) (int 0)" using t(3) e0 unfolding v0 by blast
  then have on0: "isOn im 0 0" by simp
  have "\<not> isOn im' (int 2) (int 1)" using u(2) e1 e2 unfolding v1 by blast
  then have off: "\<not> isOn im 2 1" unfolding same by simp
  have a0: "data im ! 3 = 110" using t(4) on0 by simp
  have a1: "data im ! 27 = 0" using u(3) off unfolding same by simp
  have "\<exists>im. run_mask (Some raw22) 4 4 = Inr im \<and> length (data im) = 64
            \<and> isOn im 0 0 \<and> data im ! 3 = 110
            \<and> \<not> isOn im 2 1 \<and> data im ! 27 = 0"
    using t(1,2) on0 a0 off a1 by (intro exI[of _ im]) simp
  then show ?thesis using raw22_shape v0 v1 by simp
qed

text \<open>
  C4, the code at a failing input. The fully occupied 2 x 2 grid is well formed and
  every pixel of it lies within \<open>0 \<le> x < 2\<close> and \<open>0 \<le> y < 2\<close>. From \<open>(1, 0)\<close>,
  facing RIGHT, the walk probes \<open>(2, 0)\<close>; the read \<open>(0 * 2 + 2) * 4 + 3 = 11\<close> is the
  alpha of the pixel \<open>(0, 1)\<close> of the next row, so \<open>isOn\<close> answers true for a cell
  outside the grid and the walk steps there. The downloaded polygon holds \<open>(2, 0)\<close>
  and every point after it outside the grid, down to \<open>(8, -4)\<close>, when the budget of 16
  iterations ends the loop.
\<close>

theorem polygon_leaves_grid:
  "wf_image full2 \<and> width full2 = 2 \<and> height full2 = 2
   \<and> isOn full2 0 1 \<and> isOn full2 2 0
   \<and> at_index (data full2) ((0 * 2 + 2) * 4 + 3) = at_index (data full2) ((1 * 2 + 0) * 4 + 3)
   \<and> exportPolygon (Some full2) = Download ''mask.geojson''
     [(0, 0), (1, 0), (2, 0), (2, - 1), (2, - 1), (3, - 1), (4, - 1), (4, - 2),
      (4, - 2), (5, - 2), (6, - 2), (6, - 3), (6, - 3), (7, - 3), (8, - 3), (8, - 4)]"
  by code_simp

text \<open>
  C5, the claim as stated fails. An output of two one-pixel masks has two elements
  for a 1 x 1 grid, and an output of shape 0 x 0 has non-positive dimensions: the
  resampler of the specification fails with \<open>MissingData\<close> and \<open>InvalidDimensions\<close>,
  the run returns a complete mask for both.
\<close>

theorem resample_validation_counterexample:
  "mask_shape (dims two_masks) = Some (1, 1)
   \<and> spec_resample_failure (tdata two_masks) 1 1 1 1 = Some MissingData
   \<and> run_mask (Some two_masks) 1 1 = Inr \<lparr>width = 1, height = 1, data = [0, 0, 0, 110]\<rparr>
   \<and> mask_shape (dims no_data) = Some (0, 0)
   \<and> spec_resample_failure (tdata no_data) 0 0 1 1 = Some InvalidDimensions
   \<and> run_mask (Some no_data) 1 1 = Inr \<lparr>width = 1, height = 1, data = [0, 0, 0, 0]\<rparr>"
  by code_simp

text \<open>
  C5, as amended. The run validates neither the sign of the source dimensions nor the
  element count. It fails exactly when the output tensor is missing, when its rank is
  not 2, 3 or 4, or when a side of the image is zero; a failure carries no grid.
  Otherwise it returns a complete grid of \<open>W\<close> by \<open>H\<close> pixels.
\<close>

theorem run_mask_failures:
  "((\<exists>e. run_mask out W H = Inl e) \<longleftrightarrow>
      (case out of None \<Rightarrow> True
       | Some m \<Rightarrow> length (dims m) \<notin> {2, 3, 4} \<or> W = 0 \<or> H = 0))
   \<and> (run_mask out W H = Inl MaskNotFound \<longleftrightarrow> out = None)
   \<and> (\<forall>im. run_mask out W H = Inr im \<longrightarrow>
         width im = W \<and> height im = H \<and> length (data im) = 4 * W * H)"
proof -
  have a: "(\<exists>e. run_mask out W H = Inl e) \<longleftrightarrow>
      (case out of None \<Rightarrow> True
       | Some m \<Rightarrow> length (dims m) \<notin> {2, 3, 4} \<or> W = 0 \<or> H = 0)"
  proof (cases out)
    case None
    then show ?thesis by (simp add: run_mask_def)
  next
    case (Some m)
    show ?thesis
    proof (cases "mask_shape (dims m)")
      case None
      then have "length (dims m) \<notin> {2, 3, 4}" using mask_shape_Some[of "dims m"] by simp
      with None Some show ?thesis by (simp add: run_mask_def)
    next
      case (Some s)
      then have "length (dims m) \<in> {2, 3, 4}" using mask_shape_Some[of "dims m"] by blast
      with Some \<open>out = Some m\<close> show ?thesis
        by (cases s) (simp add: run_mask_def)
    qed
  qed
  have b: "run_mask out W H = Inl MaskNotFound \<longleftrightarrow> out = None"
    by (auto simp: run_mask_def split: option.splits prod.splits)
  have c: "\<forall>im. run_mask out W H = Inr im \<longrightarrow>
         width im = W \<and> height im = H \<and> length (data im) = 4 * W * H"
    by (auto simp: run_mask_def length_resample split: option.splits prod.splits if_splits)
  show ?thesis using a b c by blast
qed

theorem run_mask_failures_witness:
  "run_mask (Some two_masks) 1 1 = Inr \<lparr>width = 1, height = 1, data = [0, 0, 0, 110]\<rparr>
   \<and> length (data \<lparr>width = 1, height = 1, data = [0, 0, 0, 110]\<rparr>) = 4 * 1 * 1
   \<and> run_mask None 1 1 = Inl MaskNotFound"
  using run_mask_failures[of "Some two_masks" 1 1] run_mask_failures[of None 1 1] two_masks_run
  by simp

text \<open>
  C6. On a grid of positive dimensions with no occupied pixel, the seed scan finds
  nothing and \<open>exportPolygon\<close> alerts "No mask to export": no polygon is traced and no
  file is downloaded.
\<close>

theorem empty_grid_alerts:
  assumes "0 < width im" "0 < height im"
    and "\<forall>x<width im. \<forall>y<height im. \<not> isOn im (int x) (int y)"
  shows "find_seed im = (- 1, - 1) \<and> exportPolygon (Some im) = Alert ''No mask to export''"
  using assms by (simp add: exportPolygon_def find_seed_none)

theorem empty_grid_alerts_witness:
  "0 < width blank2 \<and> 0 < height blank2 \<and> \<not> isOn blank2 0 0 \<and> \<not> isOn blank2 1 1
   \<and> find_seed blank2 = (- 1, - 1)
   \<and> exportPolygon (Some blank2) = Alert ''No mask to export''"
proof -
  have d: "0 < width blank2" "0 < height blank2"
    by (simp_all add: blank2_def overlay_of_def)
  have off: "\<forall>x<width blank2. \<forall>y<height blank2. \<not> isOn blank2 (int x) (int y)"
    by (simp add: blank2_off)
  show ?thesis
    using empty_grid_alerts[OF d off] d blank2_off by simp
qed

text \<open>
  C7. For a destination pixel \<open>(x, y)\<close> of an image of at most \<open>2^51\<close> pixels a side
  and a mask of positive dimensions, the mapped source coordinates lie in the valid
  index range, \<open>0 \<le> srcX < MW\<close> and \<open>0 \<le> srcY < MH\<close>: each equals its own clamped
  value, the double rounding never reaches the upper boundary, and the read at
  \<open>srcY * MW + srcX\<close> is inside a raw grid of at least \<open>MH * MW\<close> elements.
\<close>

theorem source_reads_in_bounds:
  assumes "x < W" "y < H" "W \<le> 2 ^ 51" "H \<le> 2 ^ 51" "0 < MW" "0 < MH"
    and "MH * MW \<le> length (tdata m)"
  shows "0 \<le> src_coord x W MW \<and> src_coord x W MW < int MW
       \<and> 0 \<le> src_coord y H MH \<and> src_coord y H MH < int MH
       \<and> src_coord x W MW = max 0 (min (int MW - 1) (src_coord x W MW))
       \<and> src_coord y H MH = max 0 (min (int MH - 1) (src_coord y H MH))
       \<and> at_index (tdata m) (src_coord y H MH * int MW + src_coord x W MW) =
           Some (tdata m ! (nat (src_coord y H MH) * MW + nat (src_coord x W MW)))"
proof -
  define sx where "sx = src_coord x W MW"
  define sy where "sy = src_coord y H MH"
  have x: "0 \<le> sx" "sx < int MW"
    unfolding sx_def using src_coord_nonneg src_coord_less[OF assms(1,3,5)] by simp_all
  have y: "0 \<le> sy" "sy < int MH"
    unfolding sy_def using src_coord_nonneg src_coord_less[OF assms(2,4,6)] by simp_all
  have idx: "sy * int MW + sx = int (nat sy * MW + nat sx)" using x(1) y(1) by simp
  have "nat sy * MW + nat sx < nat sy * MW + MW" using x by simp
  also have "\<dots> = (nat sy + 1) * MW" by simp
  also have "\<dots> \<le> MH * MW" using y by (intro mult_right_mono) simp_all
  finally have "nat sy * MW + nat sx < length (tdata m)" using assms(7) by simp
  then have rd: "at_index (tdata m) (sy * int MW + sx) = Some (tdata m ! (nat sy * MW + nat sx))"
    unfolding idx at_index_int by simp
  show ?thesis
    using x y rd unfolding sx_def sy_def by simp
qed

theorem source_reads_in_bounds_witness:
  "src_coord 3 4 2 = 1
   \<and> at_index (tdata raw22) (src_coord 3 4 2 * int 2 + src_coord 3 4 2) = Some (Num (9 / 10))"
proof -
  have s: "src_coord 3 4 2 = 1" by code_simp
  have l: "2 * 2 \<le> length (tdata raw22)" by (simp add: raw22_def)
  have "at_index (tdata raw22) (src_coord 3 4 2 * int 2 + src_coord 3 4 2) =
        Some (tdata raw22 ! (nat (src_coord 3 4 2) * 2 + nat (src_coord 3 4 2)))"
    using source_reads_in_bounds[of 3 4 3 4 2 2 raw22, OF _ _ _ _ _ _ l] by simp
  then show ?thesis unfolding s by (simp add: raw22_def)
qed

text \<open>
  C8, the claim as stated fails: for the 4 x 4 grid with the centre block occupied the
  ring has 15 points, and its last point \<open>(1, 2)\<close> differs from its first \<open>(1, 1)\<close>.
\<close>

theorem block4_ring_counterexample:
  "\<not> (case exportPolygon (Some block4) of
        Download f ps \<Rightarrow> length ps \<le> 8 \<and> hd ps = last ps
      | _ \<Rightarrow> False)"
  by code_simp

text \<open>
  C8, as amended. For that grid the downloaded ring is the 15 points below: it visits
  exactly the four occupied pixels, clockwise from the seed \<open>(1, 1)\<close>, repeating a
  position at every turn, one and seven eighths times around.
\<close>

theorem block4_ring_exact:
  "exportPolygon (Some block4) = Download ''mask.geojson''
     [(1, 1), (2, 1), (2, 1), (2, 2), (2, 2), (1, 2), (1, 2), (1, 1),
      (1, 1), (2, 1), (2, 1), (2, 2), (2, 2), (1, 2), (1, 2)]
   \<and> set [(1, 1), (2, 1), (2, 1), (2, 2), (2, 2), (1, 2), (1, 2), (1, 1),
      (1, 1), (2, 1), (2, 1), (2, 2), (2, 2), (1, 2), (1, 2)]
     = {(1::int, 1::int), (2, 1), (2, 2), (1, 2)}"
proof -
  have "set [(1, 1), (2, 1), (2, 1), (2, 2), (2, 2), (1, 2), (1, 2), (1, 1),
      (1, 1), (2, 1), (2, 1), (2, 2), (2, 2), (1, 2), (1, 2)]
     = {(1::int, 1::int), (2, 1), (2, 2), (1, 2)}" by auto
  then show ?thesis using block4_ring by simp
qed

text \<open>
  C9, the code at a failing input. A 2 x 2 image whose mask has no occupied pixel and
  one prompt point at \<open>(1, 1)\<close>: \<open>draw\<close> paints the marker on the overlay canvas, the
  export reads that canvas, and the exported pixel \<open>(1, 1)\<close> is opaque white although
  the mask is empty there. Without a prompt point the same mask exports as fully
  transparent.
\<close>

theorem export_png_includes_marker:
  "\<not> isOn empty_mask2 1 1
   \<and> exportPNG (Some (draw dot_painter 2 2 (Some empty_mask2) [PromptPoint 1 1 BG])) =
       Download ''mask.png''
         \<lparr>width = 2, height = 2,
          data = [255, 255, 255, 0, 255, 255, 255, 0, 255, 255, 255, 0, 255, 255, 255, 255]\<rparr>
   \<and> exportPNG (Some (draw dot_painter 2 2 (Some empty_mask2) [])) =
       Download ''mask.png''
         \<lparr>width = 2, height = 2,
          data = [255, 255, 255, 0, 255, 255, 255, 0, 255, 255, 255, 0, 255, 255, 255, 0]\<rparr>"
  by code_simp

text \<open>
  C10. With no prompt point the feeds hold one point, the placeholder \<open>(0, 0)\<close> with
  label 0. With a non-empty list whose coordinates are at most \<open>2^24\<close> in absolute
  value (single precision holds them exactly) the feeds hold as many points as the
  list, and point \<open>i\<close> of the feeds is point \<open>i\<close> of the list: its \<open>x\<close> at \<open>2 * i\<close>, its
  \<open>y\<close> at \<open>2 * i + 1\<close>, and at \<open>i\<close> its label, 1 for a foreground point and 0 for a
  background point.
\<close>

theorem prompts_sent:
  "build_prompts [] = \<lparr>n_points = 1, point_coords = [0, 0], point_labels = [0]\<rparr>
   \<and> (points \<noteq> [] \<and> (\<forall>p\<in>set points. \<bar>pt_x p\<bar> \<le> 2 ^ 24 \<and> \<bar>pt_y p\<bar> \<le> 2 ^ 24) \<longrightarrow>
        n_points (build_prompts points) = length points
      \<and> length (point_coords (build_prompts points)) = 2 * length points
      \<and> length (point_labels (build_prompts points)) = length points
      \<and> (\<forall>i<length points.
            point_coords (build_prompts points) ! (2 * i) = of_int (pt_x (points ! i))
          \<and> point_coords (build_prompts points) ! (2 * i + 1) = of_int (pt_y (points ! i))
          \<and> point_labels (build_prompts points) ! i =
              (if pt_label (points ! i) = FG then 1 else 0)))"
proof (intro conjI impI)
  show "build_prompts [] = \<lparr>n_points = 1, point_coords = [0, 0], point_labels = [0]\<rparr>"
    by (rule build_prompts_empty)
next
  assume a: "points \<noteq> [] \<and> (\<forall>p\<in>set points. \<bar>pt_x p\<bar> \<le> 2 ^ 24 \<and> \<bar>pt_y p\<bar> \<le> 2 ^ 24)"
  define n where "n = length points"
  have npos: "0 < n" using a by (simp add: n_def)
  define f0 where "f0 = \<lparr>n_points = n, point_coords = replicate (1 * n * 2) 0,
               point_labels = replicate (1 * n) (0::rat)\<rparr>"
  have mx: "max (length points) 1 = n" unfolding n_def using a by (cases points) simp_all
  have bp: "build_prompts points = fold (prompt_step points) [0..<n] f0"
    unfolding build_prompts_def Let_def mx f0_def ..
  have f0: "n_points f0 = n" "length (point_coords f0) = 2 * n" "length (point_labels f0) = n"
    by (simp_all add: f0_def)
  show "n_points (build_prompts points) = length points"
    unfolding bp using fold_prompt_fields[of points "[0..<n]" f0] f0 by (simp add: n_def)
  show "length (point_coords (build_prompts points)) = 2 * length points"
    unfolding bp using fold_prompt_fields[of points "[0..<n]" f0] f0 by (simp add: n_def)
  show "length (point_labels (build_prompts points)) = length points"
    unfolding bp using fold_prompt_fields[of points "[0..<n]" f0] f0 by (simp add: n_def)
  show "\<forall>i<length points.
            point_coords (build_prompts points) ! (2 * i) = of_int (pt_x (points ! i))
          \<and> point_coords (build_prompts points) ! (2 * i + 1) = of_int (pt_y (points ! i))
          \<and> point_labels (build_prompts points) ! i =
              (if pt_label (points ! i) = FG then 1 else 0)"
  proof (intro allI impI)
    fix i assume i: "i < length points"
    then have mem: "points ! i \<in> set points" by simp
    have ex: "fround 24 (of_int (pt_x (points ! i))) = of_int (pt_x (points ! i))"
      using a mem by (intro fround_exact) auto
    have ey: "fround 24 (of_int (pt_y (points ! i))) = of_int (pt_y (points ! i))"
      using a mem by (intro fround_exact) auto
    have pd: "point_or_default points i = points ! i" using i by (simp add: point_or_default_def)
    have k0: "2 * i < length (point_coords f0)" using i f0 by (simp add: n_def)
    have k1: "2 * i + 1 < length (point_coords f0)" using i f0 by (simp add: n_def)
    have j: "i < length (point_labels f0)" using i f0 by (simp add: n_def)
    have c0: "point_coords (build_prompts points) ! (2 * i) = of_int (pt_x (points ! i))"
      unfolding bp using fold_prompt_coord[OF k0, of points "[0..<n]"] i
      by (simp add: n_def pd ex)
    have c1: "point_coords (build_prompts points) ! (2 * i + 1) = of_int (pt_y (points ! i))"
      unfolding bp using fold_prompt_coord[OF k1, of points "[0..<n]"] i
      by (simp add: n_def pd ey)
    have "point_labels (build_prompts points) ! i = of_int (label_num (pt_label (points ! i)))"
      unfolding bp using fold_prompt_label[OF j, of points "[0..<n]"] i
      by (simp add: n_def pd label_num_exact)
    then have l: "point_labels (build_prompts points) ! i =
        (if pt_label (points ! i) = FG then 1 else 0)"
      unfolding label_num_value .
    show "point_coords (build_prompts points) ! (2 * i) = of_int (pt_x (points ! i))
          \<and> point_coords (build_prompts points) ! (2 * i + 1) = of_int (pt_y (points ! i))
          \<and> point_labels (build_prompts points) ! i =
              (if pt_label (points ! i) = FG then 1 else 0)"
      using c0 c1 l by simp
  qed
qed

theorem prompts_sent_witness:
  "[PromptPoint 3 4 FG, PromptPoint 10 7 BG] \<noteq> []
   \<and> n_points (build_prompts [PromptPoint 3 4 FG, PromptPoint 10 7 BG]) = 2
   \<and> point_coords (build_prompts [PromptPoint 3 4 FG, PromptPoint 10 7 BG]) ! 0 = 3
   \<and> point_coords (build_prompts [PromptPoint 3 4 FG, PromptPoint 10 7 BG]) ! 1 = 4
   \<and> point_labels (build_prompts [PromptPoint 3 4 FG, PromptPoint 10 7 BG]) ! 0 = 1
   \<and> point_coords (build_prompts [PromptPoint 3 4 FG, PromptPoint 10 7 BG]) ! 2 = 10
   \<and> point_coords (build_prompts [PromptPoint 3 4 FG, PromptPoint 10 7 BG]) ! 3 = 7
   \<and> point_labels (build_prompts [PromptPoint 3 4 FG, PromptPoint 10 7 BG]) ! 1 = 0"
proof -
  let ?ps = "[PromptPoint 3 4 FG, PromptPoint 10 7 BG]"
  have h: "?ps \<noteq> [] \<and> (\<forall>p\<in>set ?ps. \<bar>pt_x p\<bar> \<le> 2 ^ 24 \<and> \<bar>pt_y p\<bar> \<le> 2 ^ 24)" by simp
  from prompts_sent[of ?ps] h have t:
    "n_points (build_prompts ?ps) = length ?ps"
    "\<forall>i<length ?ps.
        point_coords (build_prompts ?ps) ! (2 * i) = of_int (pt_x (?ps ! i))
      \<and> point_coords (build_prompts ?ps) ! (2 * i + 1) = of_int (pt_y (?ps ! i))
      \<and> point_labels (build_prompts ?ps) ! i = (if pt_label (?ps ! i) = FG then 1 else 0)"
    by blast+
  have l0: "0 < length ?ps" by simp
  have l1: "1 < length ?ps" by simp
  from t(2)[rule_format, OF l0] have p0:
    "point_coords (build_prompts ?ps) ! (2 * 0) = of_int (pt_x (?ps ! 0))
      \<and> point_coords (build_prompts ?ps) ! (2 * 0 + 1) = of_int (pt_y (?ps ! 0))
      \<and> point_labels (build_prompts ?ps) ! 0 = (if pt_label (?ps ! 0) = FG then 1 else 0)" .
  from t(2)[rule_format, OF l1] have p1:
    "point_coords (build_prompts ?ps) ! (2 * 1) = of_int (pt_x (?ps ! 1))
      \<and> point_coords (build_prompts ?ps) ! (2 * 1 + 1) = of_int (pt_y (?ps ! 1))
      \<and> point_labels (build_prompts ?ps) ! 1 = (if pt_label (?ps ! 1) = FG then 1 else 0)" .
  show ?thesis using t(1) p0 p1 by simp
qed


end
